theory Spec2Isabelle
  imports Main "HOL-Library.List_Lexorder" "HOL-Library.Multiset"
begin

section \<open>Strings, slices and errors\<close>

text \<open>
  The program works on Python \<open>str\<close> values: sequences of Unicode code points. A string is
  modelled as the list of its code points, so that the non-ASCII constants of the source
  (guillemets, the en dash, the Cyrillic spelling of the owner's name) are ordinary values.
  \<open>cp\<close> is Python's \<open>ord\<close> on an ASCII or Latin-1 character and \<open>py\<close> turns a literal
  into a string.
\<close>

type_synonym pystr = "nat list"

abbreviation cp :: "char \<Rightarrow> nat" where
  "cp c \<equiv> of_char c"

abbreviation py :: "string \<Rightarrow> pystr" where
  "py cs \<equiv> map of_char cs"

datatype py_error = IndexError | KeyError | ValueError | TypeError | AttributeError | YAMLError

text \<open>\<open>s[i]\<close> for an index \<open>i \<ge> 0\<close>: out of range it raises.\<close>

definition char_at :: "pystr \<Rightarrow> nat \<Rightarrow> py_error + nat" where
  "char_at s i = (if i < length s then Inr (s ! i) else Inl IndexError)"

text \<open>\<open>s[a:b]\<close> for \<open>a, b \<ge> 0\<close>: a slice never raises, it is cut at the end of the string
  and empty when \<open>b \<le> a\<close>.\<close>

definition slice :: "pystr \<Rightarrow> nat \<Rightarrow> nat \<Rightarrow> pystr" where
  "slice s a b = take (b - a) (drop a s)"

text \<open>Sequencing of steps that may raise.\<close>

definition andthen :: "py_error + 'a \<Rightarrow> ('a \<Rightarrow> py_error + 'b) \<Rightarrow> py_error + 'b" where
  "andthen m f = (case m of Inl e \<Rightarrow> Inl e | Inr x \<Rightarrow> f x)"

text \<open>
  The whitespace of \<open>str.strip()\<close>, \<open>str.isspace()\<close> and of \<open>\s\<close> in a \<open>str\<close> pattern:
  the code points for which CPython's \<open>Py_UNICODE_ISSPACE\<close> holds.
\<close>

definition isspace :: "nat \<Rightarrow> bool" where
  "isspace c =
     ((9 \<le> c \<and> c \<le> 13) \<or> (28 \<le> c \<and> c \<le> 32) \<or> c = 0x85 \<or> c = 0xA0 \<or> c = 0x1680 \<or>
      (0x2000 \<le> c \<and> c \<le> 0x200A) \<or> c = 0x2028 \<or> c = 0x2029 \<or> c = 0x202F \<or>
      c = 0x205F \<or> c = 0x3000)"

definition strip :: "pystr \<Rightarrow> pystr" where
  "strip s = rev (dropWhile isspace (rev (dropWhile isspace s)))"

section \<open>The value extractor\<close>

text \<open>The character sets \<open>" \t\n\r"\<close>, \<open>" \t\n\r,"\<close> and \<open>" \t\n\r,}"\<close> of \<open>_extract_value\<close>.\<close>

definition WS :: pystr where
  "WS = [cp CHR '' '', cp (CHR 0x09), cp (CHR 0x0A), cp (CHR 0x0D)]"

definition WS_COMMA :: pystr where
  "WS_COMMA = WS @ [cp CHR '','']"

definition BARE_END :: pystr where
  "BARE_END = WS_COMMA @ [cp CHR ''}'']"

text \<open>\<open>while i < len(body) and P(body[i]): i += 1\<close>\<close>

function scan_while :: "(nat \<Rightarrow> bool) \<Rightarrow> pystr \<Rightarrow> nat \<Rightarrow> py_error + nat" where
  "scan_while P body i =
     (if i < length body then
        (case char_at body i of
           Inl e \<Rightarrow> Inl e
         | Inr c \<Rightarrow> if P c then scan_while P body (i + 1) else Inr i)
      else Inr i)"
  by pat_completeness auto
termination
  by (relation "measure (\<lambda>(P, body, i). length body - i)") auto

text \<open>
  The brace counting loop, used once for the body of an entry and once for a braced value:
  \<^verbatim>\<open>
  while j < len(body) and depth > 0:
      if body[j] == "{": depth += 1
      elif body[j] == "}": depth -= 1
      j += 1
  \<close>
  Only \<open>j\<close> is read after the loop. The depth stays a natural number: it is decremented
  only while it is positive.
\<close>

function brace_scan :: "pystr \<Rightarrow> nat \<Rightarrow> nat \<Rightarrow> py_error + nat" where
  "brace_scan body j depth =
     (if j < length body \<and> depth > 0 then
        (case char_at body j of
           Inl e \<Rightarrow> Inl e
         | Inr c \<Rightarrow>
             if c = cp CHR ''{'' then brace_scan body (j + 1) (depth + 1)
             else if c = cp CHR ''}'' then brace_scan body (j + 1) (depth - 1)
             else brace_scan body (j + 1) depth)
      else Inr j)"
  by pat_completeness auto
termination
  by (relation "measure (\<lambda>(body, j, depth). length body - j)") auto

text \<open>
  The loop of a quoted value:
  \<^verbatim>\<open>
  while j < len(body) and body[j] != '"':
      if body[j] == "\\": j += 1
      j += 1
  \<close>
\<close>

function quote_scan :: "pystr \<Rightarrow> nat \<Rightarrow> py_error + nat" where
  "quote_scan body j =
     (if j < length body then
        (case char_at body j of
           Inl e \<Rightarrow> Inl e
         | Inr c \<Rightarrow>
             if c \<noteq> cp CHR 0x22 then
               (if c = cp CHR 0x5C then quote_scan body (j + 1 + 1) else quote_scan body (j + 1))
             else Inr j)
      else Inr j)"
  by pat_completeness auto
termination
  by (relation "measure (\<lambda>(body, j). length body - j)") auto

declare scan_while.simps [simp del] brace_scan.simps [simp del] quote_scan.simps [simp del]

text \<open>\<open>_extract_value(body, start)\<close>: the value and the index after it.\<close>

definition extract_value :: "pystr \<Rightarrow> nat \<Rightarrow> py_error + (pystr \<times> nat)" where
  "extract_value body start =
     andthen (scan_while (\<lambda>c. c \<in> set WS) body start) (\<lambda>i.
       if i \<ge> length body then Inr ([], i)
       else andthen (char_at body i) (\<lambda>c.
         if c = cp CHR ''{'' then
           andthen (brace_scan body (i + 1) 1) (\<lambda>j.
           andthen (scan_while (\<lambda>c. c \<in> set WS_COMMA) body j) (\<lambda>j'.
             Inr (slice body (i + 1) (j - 1), j')))
         else if c = cp CHR 0x22 then
           andthen (quote_scan body (i + 1)) (\<lambda>j.
           andthen (scan_while (\<lambda>c. c \<in> set WS_COMMA) body (j + 1)) (\<lambda>j'.
             Inr (slice body (i + 1) j, j')))
         else
           andthen (scan_while (\<lambda>c. c \<notin> set BARE_END) body i) (\<lambda>j.
           andthen (scan_while (\<lambda>c. c \<in> set WS_COMMA) body j) (\<lambda>j'.
             Inr (slice body i j, j')))))"

subsection \<open>The loops of the extractor read in range and go forward\<close>

lemma char_at_append [simp]: "char_at (p @ c # r) (length p) = Inr c"
  by (simp add: char_at_def)

lemma scan_while_eq: "scan_while P body i = Inr (i + length (takeWhile P (drop i body)))"
proof (induction P body i rule: scan_while.induct)
  case (1 P body i)
  show ?case
  proof (cases "i < length body")
    case True
    then have d: "drop i body = body ! i # drop (Suc i) body"
      by (simp add: Cons_nth_drop_Suc)
    show ?thesis
    proof (cases "P (body ! i)")
      case True
      with \<open>i < length body\<close> 1 d show ?thesis
        by (subst scan_while.simps) (simp add: char_at_def)
    next
      case False
      with \<open>i < length body\<close> d show ?thesis
        by (subst scan_while.simps) (simp add: char_at_def)
    qed
  next
    case False
    then show ?thesis by (subst scan_while.simps) simp
  qed
qed

lemma brace_scan_total: "\<exists>k. brace_scan body j depth = Inr k \<and> j \<le> k"
proof (induction body j depth rule: brace_scan.induct)
  case (1 body j depth)
  show ?case
  proof (cases "j < length body \<and> depth > 0")
    case True
    then have c: "char_at body j = Inr (body ! j)" by (simp add: char_at_def)
    consider (op) "body ! j = cp CHR ''{''"
      | (cl) "body ! j \<noteq> cp CHR ''{''" "body ! j = cp CHR ''}''"
      | (ot) "body ! j \<noteq> cp CHR ''{''" "body ! j \<noteq> cp CHR ''}''"
      by blast
    then show ?thesis
    proof cases
      case op
      from "1.IH"(1) [OF True c op] obtain k
        where "brace_scan body (j + 1) (depth + 1) = Inr k" "j + 1 \<le> k" by blast
      with True c op show ?thesis by (subst brace_scan.simps) simp
    next
      case cl
      from "1.IH"(2) [OF True c cl] obtain k
        where "brace_scan body (j + 1) (depth - 1) = Inr k" "j + 1 \<le> k" by blast
      with True c cl show ?thesis by (subst brace_scan.simps) simp
    next
      case ot
      from "1.IH"(3) [OF True c ot] obtain k
        where "brace_scan body (j + 1) depth = Inr k" "j + 1 \<le> k" by blast
      with True c ot show ?thesis by (subst brace_scan.simps) simp
    qed
  next
    case False
    then show ?thesis by (subst brace_scan.simps) auto
  qed
qed

lemma quote_scan_total: "\<exists>k. quote_scan body j = Inr k \<and> j \<le> k"
proof (induction body j rule: quote_scan.induct)
  case (1 body j)
  show ?case
  proof (cases "j < length body")
    case True
    then have c: "char_at body j = Inr (body ! j)" by (simp add: char_at_def)
    consider (bs) "body ! j \<noteq> cp CHR 0x22" "body ! j = cp CHR 0x5C"
      | (ot) "body ! j \<noteq> cp CHR 0x22" "body ! j \<noteq> cp CHR 0x5C"
      | (qu) "body ! j = cp CHR 0x22"
      by blast
    then show ?thesis
    proof cases
      case bs
      from "1.IH"(1) [OF True c bs] obtain k
        where "quote_scan body (j + 1 + 1) = Inr k" "j + 1 + 1 \<le> k" by blast
      with True c bs show ?thesis by (subst quote_scan.simps) simp
    next
      case ot
      from "1.IH"(2) [OF True c ot] obtain k
        where "quote_scan body (j + 1) = Inr k" "j + 1 \<le> k" by blast
      with True c ot show ?thesis by (subst quote_scan.simps) simp
    next
      case qu
      with True c show ?thesis by (subst quote_scan.simps) simp
    qed
  next
    case False
    then show ?thesis by (subst quote_scan.simps) simp
  qed
qed

lemma extract_value_total: "\<exists>v e. extract_value body start = Inr (v, e) \<and> start \<le> e"
proof -
  let ?i = "start + length (takeWhile (\<lambda>c. c \<in> set WS) (drop start body))"
  show ?thesis
  proof (cases "?i \<ge> length body")
    case True
    then show ?thesis
      by (simp add: extract_value_def andthen_def scan_while_eq)
  next
    case False
    then have c: "char_at body ?i = Inr (body ! ?i)" by (simp add: char_at_def)
    obtain kb where kb: "brace_scan body (?i + 1) 1 = Inr kb" "?i + 1 \<le> kb"
      using brace_scan_total by blast
    obtain kq where kq: "quote_scan body (?i + 1) = Inr kq" "?i + 1 \<le> kq"
      using quote_scan_total by blast
    from False c kb kq show ?thesis
      by (simp add: extract_value_def andthen_def scan_while_eq)
  qed
qed

section \<open>The entry scanner\<close>

text \<open>
  The character classes of the two patterns and of \<open>str.lower()\<close>, \<open>str.isdigit()\<close> come
  from the Unicode database. \<open>isspace\<close> above is the whole table. The tables below are
  those of Python for the code points up to U+00FF (Basic Latin, Latin-1 Supplement) and
  from U+0400 to U+045F (the Cyrillic alphabets the bibliography is written in); on any
  other code point they say: not alphanumeric, no digit, no lower case form.
\<close>

definition isalnum :: "nat \<Rightarrow> bool" where
  "isalnum c =
     ((0x30 \<le> c \<and> c \<le> 0x39) \<or> (0x41 \<le> c \<and> c \<le> 0x5A) \<or> (0x61 \<le> c \<and> c \<le> 0x7A) \<or>
      c = 0xAA \<or> c = 0xB2 \<or> c = 0xB3 \<or> c = 0xB5 \<or> c = 0xB9 \<or> c = 0xBA \<or>
      (0xBC \<le> c \<and> c \<le> 0xBE) \<or> (0xC0 \<le> c \<and> c \<le> 0xD6) \<or> (0xD8 \<le> c \<and> c \<le> 0xF6) \<or>
      (0xF8 \<le> c \<and> c \<le> 0xFF) \<or> (0x400 \<le> c \<and> c \<le> 0x45F))"

text \<open>\<open>\w\<close> in a \<open>str\<close> pattern: alphanumeric or the underscore.\<close>

definition is_word :: "nat \<Rightarrow> bool" where
  "is_word c = (isalnum c \<or> c = cp CHR ''_'')"

definition lower_cp :: "nat \<Rightarrow> nat" where
  "lower_cp c =
     (if (0x41 \<le> c \<and> c \<le> 0x5A) \<or> (0xC0 \<le> c \<and> c \<le> 0xD6) \<or> (0xD8 \<le> c \<and> c \<le> 0xDE) \<or>
         (0x410 \<le> c \<and> c \<le> 0x42F) then c + 0x20
      else if 0x400 \<le> c \<and> c \<le> 0x40F then c + 0x50
      else c)"

definition lower :: "pystr \<Rightarrow> pystr" where
  "lower s = map lower_cp s"

text \<open>
  \<open>entry_pattern = re.compile(r"@(\w+)\s*\{([^,]+),", re.IGNORECASE)\<close>, tried at index
  \<open>s\<close>: the first group and the end of the match. Each repetition is greedy and is
  followed by a character outside its class (\<open>\w+\<close> by a space or a brace, \<open>\s*\<close> by
  the brace, \<open>[^,]+\<close> by the comma), so that the pattern matches at \<open>s\<close> exactly when it
  does with every repetition taken as far as it goes; backtracking finds nothing else.
  No character of the pattern has another case.
\<close>

definition entry_match_at :: "pystr \<Rightarrow> nat \<Rightarrow> (pystr \<times> nat) option" where
  "entry_match_at text s =
     (case drop s text of
        [] \<Rightarrow> None
      | a # r1 \<Rightarrow>
          let w = takeWhile is_word r1;
              r2 = dropWhile isspace (dropWhile is_word r1)
          in if a = cp CHR ''@'' \<and> w \<noteq> [] then
               (case r2 of
                  [] \<Rightarrow> None
                | b # r3 \<Rightarrow>
                    let k = takeWhile (\<lambda>c. c \<noteq> cp CHR '','') r3;
                        r4 = dropWhile (\<lambda>c. c \<noteq> cp CHR '','') r3
                    in if b = cp CHR ''{'' \<and> k \<noteq> [] \<and> r4 \<noteq> []
                       then Some (w, length text - length r4 + 1)
                       else None)
             else None)"

text \<open>\<open>entry_pattern.search(text, pos)\<close>: the match at the least index from \<open>pos\<close> on.\<close>

function entry_search :: "pystr \<Rightarrow> nat \<Rightarrow> (pystr \<times> nat) option" where
  "entry_search text pos =
     (if pos > length text then None
      else (case entry_match_at text pos of
              Some m \<Rightarrow> Some m
            | None \<Rightarrow> entry_search text (pos + 1)))"
  by pat_completeness auto
termination
  by (relation "measure (\<lambda>(text, pos). Suc (length text) - pos)") auto

text \<open>
  \<open>field_re = re.compile(r"(\w+)\s*=\s*")\<close> tried at index \<open>s\<close>, read as the entry
  pattern is: the name and the end of the match.
\<close>

definition field_match_at :: "pystr \<Rightarrow> nat \<Rightarrow> (pystr \<times> nat) option" where
  "field_match_at body s =
     (let r = drop s body;
          w = takeWhile is_word r;
          r2 = dropWhile isspace (dropWhile is_word r)
      in if w \<noteq> [] then
           (case r2 of
              [] \<Rightarrow> None
            | e # r3 \<Rightarrow>
                if e = cp CHR ''='' then Some (w, length body - length (dropWhile isspace r3))
                else None)
         else None)"

function field_search :: "pystr \<Rightarrow> nat \<Rightarrow> (pystr \<times> nat) option" where
  "field_search body pos =
     (if pos > length body then None
      else (case field_match_at body pos of
              Some m \<Rightarrow> Some m
            | None \<Rightarrow> field_search body (pos + 1)))"
  by pat_completeness auto
termination
  by (relation "measure (\<lambda>(body, pos). Suc (length body) - pos)") auto

declare entry_search.simps [simp del] field_search.simps [simp del]

text \<open>A match ends after the index it was searched from.\<close>

lemma length_dropWhile_dropWhile: "length (dropWhile P (dropWhile Q xs)) \<le> length xs"
  by (meson length_dropWhile_le order_trans)

lemma entry_match_at_end:
  assumes "entry_match_at text s = Some (w, e)"
  shows "s < e"
proof -
  from assms obtain a r1 where d: "drop s text = a # r1"
    by (auto simp: entry_match_at_def split: list.splits)
  then have l: "length text - s = Suc (length r1)"
    by (metis length_drop length_Cons)
  from assms d obtain b r3
    where r2: "dropWhile isspace (dropWhile is_word r1) = b # r3"
      and e: "e = length text - length (dropWhile (\<lambda>c. c \<noteq> cp CHR '','') r3) + 1"
    by (auto simp: entry_match_at_def Let_def split: list.splits if_splits)
  have "length (b # r3) \<le> length r1"
    unfolding r2 [symmetric] by (rule length_dropWhile_dropWhile)
  moreover have "length (dropWhile (\<lambda>c. c \<noteq> cp CHR '','') r3) \<le> length r3"
    by (rule length_dropWhile_le)
  ultimately show ?thesis using l e by simp
qed

lemma entry_search_end: "entry_search src pos = Some (w, e) \<Longrightarrow> pos < e"
proof (induction src pos rule: entry_search.induct)
  case (1 src pos)
  from "1.prems" have le: "\<not> pos > length src"
    by (subst (asm) entry_search.simps) (simp split: if_splits)
  show ?case
  proof (cases "entry_match_at src pos")
    case None
    with "1.prems" le have "entry_search src (pos + 1) = Some (w, e)"
      by (subst (asm) entry_search.simps) simp
    from "1.IH" [OF le None this] show ?thesis by simp
  next
    case (Some m)
    with "1.prems" le have "entry_match_at src pos = Some (w, e)"
      by (subst (asm) entry_search.simps) simp
    then show ?thesis by (rule entry_match_at_end)
  qed
qed

lemma field_match_at_end:
  assumes "field_match_at body s = Some (w, e)"
  shows "s < e"
proof -
  from assms obtain b r3
    where r2: "dropWhile isspace (dropWhile is_word (drop s body)) = b # r3"
      and e: "e = length body - length (dropWhile isspace r3)"
    by (auto simp: field_match_at_def Let_def split: list.splits if_splits)
  have "length (b # r3) \<le> length (drop s body)"
    unfolding r2 [symmetric] by (rule length_dropWhile_dropWhile)
  moreover have "length (dropWhile isspace r3) \<le> length r3"
    by (rule length_dropWhile_le)
  ultimately show ?thesis using e by simp
qed

lemma field_search_end: "field_search body pos = Some (w, e) \<Longrightarrow> pos < e"
proof (induction body pos rule: field_search.induct)
  case (1 body pos)
  from "1.prems" have le: "\<not> pos > length body"
    by (subst (asm) field_search.simps) (simp split: if_splits)
  show ?case
  proof (cases "field_match_at body pos")
    case None
    with "1.prems" le have "field_search body (pos + 1) = Some (w, e)"
      by (subst (asm) field_search.simps) simp
    from "1.IH" [OF le None this] show ?thesis by simp
  next
    case (Some m)
    with "1.prems" le have "field_match_at body pos = Some (w, e)"
      by (subst (asm) field_search.simps) simp
    then show ?thesis by (rule field_match_at_end)
  qed
qed

text \<open>A raw entry: the \<open>dict\<close> from lowercased field names to unparsed values.\<close>

type_synonym entry = "pystr \<rightharpoonup> pystr"

text \<open>
  The loop over the fields of one entry body:
  \<^verbatim>\<open>
  while fpos < len(body):
      fm = field_re.search(body, fpos)
      if not fm: break
      key = fm.group(1).lower()
      value, vend = _extract_value(body, fm.end())
      fields[key] = value
      fpos = vend
  \<close>
\<close>

function parse_fields :: "pystr \<Rightarrow> nat \<Rightarrow> entry \<Rightarrow> py_error + entry" where
  "parse_fields body fpos fields =
     (if fpos < length body then
        (case field_search body fpos of
           None \<Rightarrow> Inr fields
         | Some (w, vstart) \<Rightarrow>
             (case extract_value body vstart of
                Inl e \<Rightarrow> Inl e
              | Inr (val, vend) \<Rightarrow> parse_fields body vend (fields(lower w \<mapsto> val))))
      else Inr fields)"
  by pat_completeness auto
termination
proof (relation "measure (\<lambda>(body, fpos, fields). length body - fpos)", goal_cases)
  case 1
  show ?case by simp
next
  case (2 body fpos fields x2 w vstart x2a val vend)
  from 2 have "fpos < vstart" by (auto dest: field_search_end)
  moreover from 2 extract_value_total [of body vstart] have "vstart \<le> vend" by auto
  ultimately show ?case using 2 by simp
qed

text \<open>
  The loop over the entries of the text:
  \<^verbatim>\<open>
  pos = 0
  while pos < len(text):
      m = entry_pattern.search(text, pos)
      if not m: break
      entry_type = m.group(1).lower()
      start = m.end(); depth = 1; i = start
      while i < len(text) and depth > 0: ...
      body = text[start : i - 1]
      pos = i
      fields = {"_type": entry_type}
      ...
      entries.append(fields)
  return entries
  \<close>
\<close>

function parse_entries :: "pystr \<Rightarrow> nat \<Rightarrow> entry list \<Rightarrow> py_error + entry list" where
  "parse_entries text pos entries =
     (if pos < length text then
        (case entry_search text pos of
           None \<Rightarrow> Inr entries
         | Some (w, start) \<Rightarrow>
             (case brace_scan text start 1 of
                Inl e \<Rightarrow> Inl e
              | Inr i \<Rightarrow>
                  (case parse_fields (slice text start (i - 1)) 0
                          (Map.empty(py ''_type'' \<mapsto> lower w)) of
                     Inl e \<Rightarrow> Inl e
                   | Inr fields \<Rightarrow> parse_entries text i (entries @ [fields]))))
      else Inr entries)"
  by pat_completeness auto
termination
proof (relation "measure (\<lambda>(text, pos, entries). length text - pos)", goal_cases)
  case 1
  show ?case by simp
next
  case (2 src pos entries x2 w start i fields)
  from 2 have "pos < start" by (auto dest: entry_search_end)
  moreover from 2 brace_scan_total [of src start 1] have "start \<le> i" by auto
  ultimately show ?case using 2 by simp
qed

declare parse_fields.simps [simp del] parse_entries.simps [simp del]

definition parse_bib :: "pystr \<Rightarrow> py_error + entry list" where
  "parse_bib text = parse_entries text 0 []"

text \<open>The two loops of the scanner return: no step of them raises.\<close>

lemma parse_fields_total: "\<exists>fs. parse_fields body fpos fields = Inr fs"
proof (induction body fpos fields rule: parse_fields.induct)
  case (1 body fpos fields)
  show ?case
  proof (cases "fpos < length body")
    case False
    then show ?thesis by (subst parse_fields.simps) simp
  next
    case True
    show ?thesis
    proof (cases "field_search body fpos")
      case None
      with True show ?thesis by (subst parse_fields.simps) simp
    next
      case (Some m)
      obtain w vstart where m: "m = (w, vstart)" by (cases m)
      obtain val vend where ev: "extract_value body vstart = Inr (val, vend)"
        using extract_value_total by blast
      from "1.IH" [OF True Some [unfolded m] refl ev refl]
      obtain fs where "parse_fields body vend (fields(lower w \<mapsto> val)) = Inr fs" by blast
      with True Some m ev show ?thesis by (subst parse_fields.simps) simp
    qed
  qed
qed

lemma parse_entries_total: "\<exists>es. parse_entries src pos entries = Inr es"
proof (induction src pos entries rule: parse_entries.induct)
  case (1 src pos entries)
  show ?case
  proof (cases "pos < length src")
    case False
    then show ?thesis by (subst parse_entries.simps) simp
  next
    case True
    show ?thesis
    proof (cases "entry_search src pos")
      case None
      with True show ?thesis by (subst parse_entries.simps) simp
    next
      case (Some m)
      obtain w start where m: "m = (w, start)" by (cases m)
      obtain i where bs: "brace_scan src start 1 = Inr i"
        using brace_scan_total by blast
      obtain fs where pf: "parse_fields (slice src start (i - 1)) 0
          (Map.empty(py ''_type'' \<mapsto> lower w)) = Inr fs"
        using parse_fields_total by blast
      from "1.IH" [OF True Some [unfolded m] refl bs pf]
      obtain es where "parse_entries src i (entries @ [fs]) = Inr es" by blast
      with True Some m bs pf show ?thesis by (subst parse_entries.simps) simp
    qed
  qed
qed

section \<open>The record normalizer\<close>

subsection \<open>Braces and LaTeX markup\<close>

definition startswith :: "pystr \<Rightarrow> pystr \<Rightarrow> bool" where
  "startswith s p = (take (length p) s = p)"

definition endswith :: "pystr \<Rightarrow> pystr \<Rightarrow> bool" where
  "endswith s p = (length p \<le> length s \<and> drop (length s - length p) s = p)"

text \<open>
  \<^verbatim>\<open>
  while value.startswith("{") and value.endswith("}"):
      value = value[1:-1]
  \<close>
\<close>

function strip_braces :: "pystr \<Rightarrow> pystr" where
  "strip_braces v =
     (if startswith v (py ''{'') \<and> endswith v (py ''}'')
      then strip_braces (slice v 1 (length v - 1))
      else v)"
  by pat_completeness auto
termination
  by (relation "measure length") (auto simp: slice_def startswith_def endswith_def)

declare strip_braces.simps [simp del]

text \<open>\<open>s.replace(old, new)\<close> for a non-empty \<open>old\<close>, as every call of the program has it:
  the occurrences of \<open>old\<close> from left to right, none overlapping another.\<close>

function replace :: "pystr \<Rightarrow> pystr \<Rightarrow> pystr \<Rightarrow> pystr" where
  "replace s old new =
     (if s = [] \<or> old = [] then s
      else if startswith s old then new @ replace (drop (length old) s) old new
      else hd s # replace (tl s) old new)"
  by pat_completeness auto
termination
  by (relation "measure (\<lambda>(s, old, new). length s)") auto

declare replace.simps [simp del]

definition is_ascii_letter :: "nat \<Rightarrow> bool" where
  "is_ascii_letter c = ((0x41 \<le> c \<and> c \<le> 0x5A) \<or> (0x61 \<le> c \<and> c \<le> 0x7A))"

text \<open>
  \<open>re.sub(r"\\[a-zA-Z]+\s*", "", value)\<close>: a backslash, the letters after it (at least
  one) and the whitespace after them are dropped, from left to right. Nothing follows the
  two repetitions in the pattern, so each match takes all it can.
\<close>

function strip_commands :: "pystr \<Rightarrow> pystr" where
  "strip_commands s =
     (case s of
        [] \<Rightarrow> []
      | c # cs \<Rightarrow>
          if c = cp CHR 0x5C \<and> takeWhile is_ascii_letter cs \<noteq> []
          then strip_commands (dropWhile isspace (dropWhile is_ascii_letter cs))
          else c # strip_commands cs)"
  by pat_completeness auto
termination
proof (relation "measure length", goal_cases)
  case 1
  show ?case by simp
next
  case (2 s c cs)
  have "length (dropWhile isspace (dropWhile is_ascii_letter cs)) \<le> length cs"
    by (rule length_dropWhile_dropWhile)
  with 2 show ?case by simp
next
  case (3 s c cs)
  then show ?case by simp
qed

declare strip_commands.simps [simp del]

text \<open>
  \<^verbatim>\<open>
  value = value.replace(r"\flqq", "\u00ab")
  value = value.replace(r"\frqq", "\u00bb")
  value = value.replace(r"\dq", '"')
  value = value.replace("~", " ")
  value = value.replace("--", "\u2013")
  value = re.sub(r"\\[a-zA-Z]+\s*", "", value)
  value = value.replace("{", "").replace("}", "")
  return value.strip()
  \<close>
\<close>

definition clean_latex :: "pystr \<Rightarrow> pystr" where
  "clean_latex value =
     (let value = replace value (cp CHR 0x5C # py ''flqq'') [0xAB];
          value = replace value (cp CHR 0x5C # py ''frqq'') [0xBB];
          value = replace value (cp CHR 0x5C # py ''dq'') [cp CHR 0x22];
          value = replace value (py ''~'') (py '' '');
          value = replace value (py ''--'') [0x2013];
          value = strip_commands value;
          value = replace (replace value (py ''{'') []) (py ''}'') []
      in strip value)"

subsection \<open>Authors\<close>

text \<open>
  \<open>r"\s+and\s+"\<close> tried at the head of \<open>r\<close>: what is left of \<open>r\<close> after the match. The
  first \<open>\s+\<close> is followed by the letter \<open>a\<close> and the last one by nothing, so both take all
  the whitespace there is.
\<close>

definition and_match :: "pystr \<Rightarrow> pystr option" where
  "and_match r =
     (let r1 = dropWhile isspace r;
          r2 = drop 3 r1
      in if takeWhile isspace r \<noteq> [] \<and> startswith r1 (py ''and'') \<and> takeWhile isspace r2 \<noteq> []
         then Some (dropWhile isspace r2)
         else None)"

lemma and_match_shorter:
  assumes "and_match r = Some r'"
  shows "length r' < length r"
proof -
  from assms have r': "r' = dropWhile isspace (drop 3 (dropWhile isspace r))"
    and ne: "takeWhile isspace r \<noteq> []"
    by (auto simp: and_match_def Let_def split: if_splits)
  have "length (takeWhile isspace r) + length (dropWhile isspace r) = length r"
    by (metis length_append takeWhile_dropWhile_id)
  with ne have "length (dropWhile isspace r) < length r"
    by (cases "takeWhile isspace r") auto
  moreover have "length r' \<le> length (drop 3 (dropWhile isspace r))"
    unfolding r' by (rule length_dropWhile_le)
  ultimately show ?thesis by simp
qed

text \<open>\<open>re.split(r"\s+and\s+", raw)\<close>: \<open>acc\<close> is the piece read so far.\<close>

function split_and :: "pystr \<Rightarrow> pystr \<Rightarrow> pystr list" where
  "split_and acc r =
     (case r of
        [] \<Rightarrow> [acc]
      | c # cs \<Rightarrow>
          (case and_match r of
             Some r' \<Rightarrow> acc # split_and [] r'
           | None \<Rightarrow> split_and (acc @ [c]) cs))"
  by pat_completeness auto
termination
  by (relation "measure (\<lambda>(acc, r). length r)") (auto dest: and_match_shorter)

declare split_and.simps [simp del]

definition re_split_and :: "pystr \<Rightarrow> pystr list" where
  "re_split_and raw = split_and [] raw"

text \<open>\<open>part.split(",", 1)\<close> of a part with a comma: the text before the first comma and
  the text after it.\<close>

definition split_comma :: "pystr \<Rightarrow> pystr \<times> pystr" where
  "split_comma part =
     (takeWhile (\<lambda>c. c \<noteq> cp CHR '','') part, drop 1 (dropWhile (\<lambda>c. c \<noteq> cp CHR '','') part))"

text \<open>
  The loop of \<open>_parse_author_list\<close> over the pieces, \<open>names\<close> being the list built so far:
  \<^verbatim>\<open>
  for part in parts:
      part = part.strip()
      if not part: continue
      if part.count(",") >= 2: continue
      if "," in part:
          last, first = part.split(",", 1)
          name = f"{first.strip()} {last.strip()}"
      else:
          name = part
      name = _clean_latex(name)
      if name: names.append(name)
  \<close>
\<close>

fun author_loop :: "pystr list \<Rightarrow> pystr list \<Rightarrow> pystr list" where
  "author_loop [] names = names"
| "author_loop (p # parts) names =
     (let part = strip p in
      if part = [] then author_loop parts names
      else if count_list part (cp CHR '','') \<ge> 2 then author_loop parts names
      else
        let name = (if cp CHR '','' \<in> set part
                    then (case split_comma part of
                            (last', first') \<Rightarrow> strip first' @ py '' '' @ strip last')
                    else part);
            name = clean_latex name
        in if name \<noteq> [] then author_loop parts (names @ [name])
           else author_loop parts names)"

definition parse_author_list :: "pystr \<Rightarrow> pystr list" where
  "parse_author_list raw = author_loop (re_split_and raw) []"

subsection \<open>Months\<close>

definition MONTH_MAP :: "pystr \<rightharpoonup> pystr" where
  "MONTH_MAP = map_of
     [(py ''jan'', py ''01''), (py ''feb'', py ''02''), (py ''mar'', py ''03''),
      (py ''apr'', py ''04''), (py ''may'', py ''05''), (py ''jun'', py ''06''),
      (py ''jul'', py ''07''), (py ''aug'', py ''08''), (py ''sep'', py ''09''),
      (py ''oct'', py ''10''), (py ''nov'', py ''11''), (py ''dec'', py ''12'')]"

text \<open>
  \<open>str.isdigit()\<close> holds of a non-empty string of digits, and a digit is a character of
  numeric type Digit or Decimal: the ten ASCII digits and, up to U+00FF, the superscripts
  two, three and one. \<open>int()\<close> reads decimal characters only: on a string that passed
  \<open>isdigit()\<close> and holds a superscript it raises \<open>ValueError\<close>.
\<close>

definition isdecimal_cp :: "nat \<Rightarrow> bool" where
  "isdecimal_cp c = (0x30 \<le> c \<and> c \<le> 0x39)"

definition isdigit_cp :: "nat \<Rightarrow> bool" where
  "isdigit_cp c = (isdecimal_cp c \<or> c = 0xB2 \<or> c = 0xB3 \<or> c = 0xB9)"

definition isdigit :: "pystr \<Rightarrow> bool" where
  "isdigit s = (s \<noteq> [] \<and> list_all isdigit_cp s)"

text \<open>\<open>int(s)\<close> for a string \<open>s\<close> of digits (no sign, no blank, no underscore).\<close>

definition int_of :: "pystr \<Rightarrow> py_error + int" where
  "int_of s =
     (if s \<noteq> [] \<and> list_all isdecimal_cp s
      then Inr (foldl (\<lambda>n c. 10 * n + int (c - 0x30)) 0 s)
      else Inl ValueError)"

text \<open>\<open>s.zfill(width)\<close>: zeros on the left up to the width, after a leading sign if there
  is one; a string of the width or longer is returned as it is.\<close>

definition zfill :: "pystr \<Rightarrow> nat \<Rightarrow> pystr" where
  "zfill s width =
     (if length s \<ge> width then s
      else (case s of
              [] \<Rightarrow> replicate width (cp CHR ''0'')
            | c # cs \<Rightarrow>
                if c = cp CHR ''+'' \<or> c = cp CHR ''-''
                then c # replicate (width - length s) (cp CHR ''0'') @ cs
                else replicate (width - length s) (cp CHR ''0'') @ s))"

text \<open>
  \<^verbatim>\<open>
  if raw is None: return None
  raw = raw.strip().lower()
  if raw in MONTH_MAP: return MONTH_MAP[raw]
  if raw.isdigit() and 1 <= int(raw) <= 12: return raw.zfill(2)
  return None
  \<close>
\<close>

definition resolve_month :: "pystr option \<Rightarrow> py_error + pystr option" where
  "resolve_month raw =
     (case raw of
        None \<Rightarrow> Inr None
      | Some r \<Rightarrow>
          let raw = lower (strip r) in
          (case MONTH_MAP raw of
             Some m \<Rightarrow> Inr (Some m)
           | None \<Rightarrow>
               if isdigit raw then
                 andthen (int_of raw) (\<lambda>n.
                   if 1 \<le> n \<and> n \<le> 12 then Inr (Some (zfill raw 2)) else Inr None)
               else Inr None))"

subsection \<open>Owner emphasis\<close>

definition OWNER_LAST_NAMES :: "pystr list" where
  "OWNER_LAST_NAMES = [py ''Rozhkov'', [0x420, 0x43E, 0x436, 0x43A, 0x43E, 0x432]]"

text \<open>\<open>sub in s\<close> for two strings.\<close>

fun contains :: "pystr \<Rightarrow> pystr \<Rightarrow> bool" where
  "contains [] sub = (sub = [])"
| "contains (c # cs) sub = (startswith (c # cs) sub \<or> contains cs sub)"

definition emphasise_owner :: "pystr list \<Rightarrow> pystr list" where
  "emphasise_owner authors =
     map (\<lambda>name.
            if list_ex (\<lambda>ln. contains (lower name) (lower ln)) OWNER_LAST_NAMES
            then py ''***'' @ name @ py ''***''
            else name)
         authors"

subsection \<open>One entry\<close>

text \<open>The publication record: the \<open>dict\<close> that \<open>bib_entry_to_publication\<close> builds, with its
  two optional keys.\<close>

record publication =
  title :: pystr
  authors :: "pystr list"
  journal :: "pystr option"
  date :: pystr
  doi :: "pystr option"

text \<open>\<open>a or b\<close> on values that are a string or \<open>None\<close>: the first one that is neither
  \<open>None\<close> nor empty, else the last.\<close>

definition truthy :: "pystr option \<Rightarrow> bool" where
  "truthy v = (case v of None \<Rightarrow> False | Some s \<Rightarrow> s \<noteq> [])"

definition bib_entry_to_publication :: "entry \<Rightarrow> py_error + publication option" where
  "bib_entry_to_publication entry =
     (case (entry (py ''title''), entry (py ''year'')) of
        (Some raw_title, Some raw_year) \<Rightarrow>
          if raw_title = [] \<or> raw_year = [] then Inr None
          else
            let title = clean_latex (strip_braces raw_title);
                raw_authors = (case entry (py ''author'') of None \<Rightarrow> [] | Some a \<Rightarrow> a);
                authors = emphasise_owner (parse_author_list raw_authors);
                venue = (if truthy (entry (py ''journal'')) then entry (py ''journal'')
                         else if truthy (entry (py ''booktitle'')) then entry (py ''booktitle'')
                         else Some []);
                venue = clean_latex (strip_braces (case venue of None \<Rightarrow> [] | Some v \<Rightarrow> v))
            in andthen (resolve_month (entry (py ''month''))) (\<lambda>month.
                 let year = strip raw_year;
                     date = (if truthy month
                             then year @ py ''-'' @ (case month of None \<Rightarrow> [] | Some m \<Rightarrow> m)
                             else year)
                 in Inr (Some \<lparr>title = title,
                                authors = authors,
                                journal = (if venue \<noteq> [] then Some venue else None),
                                date = date,
                                doi = (if truthy (entry (py ''doi''))
                                       then map_option strip_braces (entry (py ''doi''))
                                       else None)\<rparr>))
      | _ \<Rightarrow> Inr None)"

section \<open>Merge and sort\<close>

text \<open>
  \<open>publications.sort(key=lambda p: p["date"], reverse=True)\<close>. The keys are compared as
  Python compares strings: code point by code point, a proper prefix before the longer
  string, which is the order of lists. With \<open>reverse=True\<close> the list is reversed, sorted
  by a stable ascending sort and reversed again.
\<close>

definition sort_by_date_reverse :: "publication list \<Rightarrow> publication list" where
  "sort_by_date_reverse publications = rev (sort_key date (rev publications))"

text \<open>
  \<^verbatim>\<open>
  for entry in entries:
      pub = bib_entry_to_publication(entry)
      if pub is not None: publications.append(pub)
  \<close>
\<close>

fun convert_entries :: "entry list \<Rightarrow> publication list \<Rightarrow> py_error + publication list" where
  "convert_entries [] publications = Inr publications"
| "convert_entries (entry # entries) publications =
     (case bib_entry_to_publication entry of
        Inl e \<Rightarrow> Inl e
      | Inr None \<Rightarrow> convert_entries entries publications
      | Inr (Some pub) \<Rightarrow> convert_entries entries (publications @ [pub]))"

text \<open>The sorted publications of a bibliography text: \<open>main\<close> from the call of
  \<open>_parse_bib\<close> to the sort.\<close>

definition collect_publications :: "pystr \<Rightarrow> py_error + publication list" where
  "collect_publications bib_text =
     andthen (parse_bib bib_text) (\<lambda>entries.
     andthen (convert_entries entries []) (\<lambda>publications.
       Inr (sort_by_date_reverse publications)))"


















section \<open>Well-formed values\<close>

text \<open>
  A text has balanced braces when, read from left to right with a counter that starts at
  \<open>d\<close>, an opening brace adding one and a closing brace taking one away, the counter never
  falls below zero and ends at zero.
\<close>

fun nesting :: "pystr \<Rightarrow> nat \<Rightarrow> bool" where
  "nesting [] d = (d = 0)"
| "nesting (c # cs) d =
     (if c = cp CHR ''{'' then nesting cs (d + 1)
      else if c = cp CHR ''}'' then d > 0 \<and> nesting cs (d - 1)
      else nesting cs d)"

definition balanced :: "pystr \<Rightarrow> bool" where
  "balanced s = nesting s 0"

text \<open>
  How far the brace loop of the extractor runs: the number of characters it reads from
  \<open>cs\<close> when it starts with the counter at \<open>depth\<close>, up to the character that
  brings the counter to zero or to the end of the text.
\<close>

fun brace_len :: "pystr \<Rightarrow> nat \<Rightarrow> nat" where
  "brace_len [] depth = 0"
| "brace_len (c # cs) depth =
     (if depth = 0 then 0
      else if c = cp CHR ''{'' then 1 + brace_len cs (depth + 1)
      else if c = cp CHR ''}'' then 1 + brace_len cs (depth - 1)
      else 1 + brace_len cs depth)"

text \<open>
  The inside of a quoted value: read from left to right, a backslash taking the character
  after it with it, no quote is read on its own, and the last character is not a
  backslash left without a character to take (it would take the closing quote).
\<close>

fun escapes_closed :: "pystr \<Rightarrow> bool" where
  "escapes_closed [] = True"
| "escapes_closed [c] = (c \<noteq> cp CHR 0x22 \<and> c \<noteq> cp CHR 0x5C)"
| "escapes_closed (c # d # cs) =
     (if c = cp CHR 0x5C then escapes_closed cs
      else c \<noteq> cp CHR 0x22 \<and> escapes_closed (d # cs))"

subsection \<open>The loops on well-formed values\<close>

lemma brace_scan_nesting:
  "nesting c d \<Longrightarrow>
   brace_scan (p @ c @ cp CHR ''}'' # rest) (length p) (Suc d) = Inr (length p + length c + 1)"
proof (induction c arbitrary: p d)
  case Nil
  have "brace_scan (p @ cp CHR ''}'' # rest) (Suc (length p)) 0 = Inr (Suc (length p))"
    by (subst brace_scan.simps) simp
  with Nil show ?case
    by (subst brace_scan.simps) simp
next
  case (Cons x c)
  have step: "brace_scan ((p @ [x]) @ c @ cp CHR ''}'' # rest) (length (p @ [x])) (Suc d')
      = Inr (length (p @ [x]) + length c + 1)" if "nesting c d'" for d'
    using Cons.IH [OF that, of "p @ [x]"] .
  show ?case
  proof (cases "x = cp CHR ''{''")
    case True
    with Cons.prems have "nesting c (Suc d)" by simp
    from step [OF this] True show ?thesis
      by (subst brace_scan.simps) simp
  next
    case False
    note nb = this
    show ?thesis
    proof (cases "x = cp CHR ''}''")
      case True
      with Cons.prems obtain d' where d: "d = Suc d'" and n: "nesting c d'"
        by (cases d) auto
      from step [OF n] True d show ?thesis
        by (subst brace_scan.simps) simp
    next
      case False
      with nb Cons.prems have "nesting c d" by simp
      from step [OF this] nb False show ?thesis
        by (subst brace_scan.simps) simp
    qed
  qed
qed

lemma quote_scan_at_quote:
  "quote_scan (p @ cp CHR 0x22 # rest) (length p) = Inr (length p)"
  by (subst quote_scan.simps) simp

lemma quote_scan_closed:
  "escapes_closed c \<Longrightarrow>
   quote_scan (p @ c @ cp CHR 0x22 # rest) (length p) = Inr (length p + length c)"
proof (induction c arbitrary: p rule: escapes_closed.induct)
  case 1
  show ?case using quote_scan_at_quote [of p rest] by simp
next
  case (2 x)
  from quote_scan_at_quote [of "p @ [x]" rest] 2 show ?case
    by (subst quote_scan.simps) simp
next
  case (3 x y cs)
  show ?case
  proof (cases "x = cp CHR 0x5C")
    case True
    with "3.prems" have ec: "escapes_closed cs" by simp
    from "3.IH"(1) [OF True ec, of "p @ [x, y]"] True show ?thesis
      by (subst quote_scan.simps) simp
  next
    case False
    with "3.prems" have ec: "escapes_closed (y # cs)" and nq: "x \<noteq> cp CHR 0x22" by simp_all
    from "3.IH"(2) [OF False ec, of "p @ [x]"] False nq show ?thesis
      by (subst quote_scan.simps) simp
  qed
qed

lemma takeWhile_ws_stop:
  "set ws \<subseteq> set WS \<Longrightarrow> x \<notin> set WS \<Longrightarrow>
   takeWhile (\<lambda>c. c \<in> set WS) (ws @ x # r) = ws"
  by (induction ws) auto

lemma skip_leading_ws:
  assumes "set ws \<subseteq> set WS" and "x \<notin> set WS"
  shows "scan_while (\<lambda>c. c \<in> set WS) (pre @ ws @ x # r) (length pre) =
         Inr (length pre + length ws)"
  using takeWhile_ws_stop [OF assms] by (simp add: scan_while_eq)

lemma skip_trailing:
  "i = length p \<Longrightarrow> scan_while P (p @ rest) i = Inr (i + length (takeWhile P rest))"
  by (simp add: scan_while_eq)

lemma slice_mid: "a = length p \<Longrightarrow> b = length p + length m \<Longrightarrow> slice (p @ m @ r) a b = m"
  by (simp add: slice_def)

lemma extract_braced:
  assumes "balanced content" and "set ws \<subseteq> set WS"
  shows "extract_value (pre @ ws @ cp CHR ''{'' # content @ cp CHR ''}'' # rest) (length pre) =
    Inr (content,
         length pre + length ws + length content + 2 +
         length (takeWhile (\<lambda>c. c \<in> set WS_COMMA) rest))"
proof -
  let ?body = "pre @ ws @ cp CHR ''{'' # content @ cp CHR ''}'' # rest"
  let ?i = "length pre + length ws"
  let ?j = "?i + 1 + length content + 1"
  have a: "scan_while (\<lambda>c. c \<in> set WS) ?body (length pre) = Inr ?i"
    by (rule skip_leading_ws [OF assms(2)]) (simp add: WS_def)
  have g: "\<not> ?i \<ge> length ?body" by simp
  have b: "char_at ?body ?i = Inr (cp CHR ''{'')"
    using char_at_append [of "pre @ ws"] by simp
  have c: "brace_scan ?body (?i + 1) 1 = Inr ?j"
    using brace_scan_nesting [of content 0 "pre @ ws @ [cp CHR ''{'']" rest] assms(1)
    by (simp add: balanced_def)
  have f: "scan_while (\<lambda>c. c \<in> set WS_COMMA) ?body ?j =
           Inr (?j + length (takeWhile (\<lambda>c. c \<in> set WS_COMMA) rest))"
    using skip_trailing [of ?j "pre @ ws @ cp CHR ''{'' # content @ [cp CHR ''}'']" _ rest]
    by simp
  have e: "slice ?body (?i + 1) (?j - 1) = content"
    using slice_mid [of "?i + 1" "pre @ ws @ [cp CHR ''{'']" "?j - 1" content "cp CHR ''}'' # rest"]
    by simp
  show ?thesis
    unfolding extract_value_def andthen_def
    apply (simp only: a sum.case g if_False b)
    apply (simp only: simp_thms if_True c sum.case f e)
    apply simp
    done
qed

lemma extract_quoted:
  assumes "escapes_closed content" and "set ws \<subseteq> set WS"
  shows "extract_value (pre @ ws @ cp CHR 0x22 # content @ cp CHR 0x22 # rest) (length pre) =
    Inr (content,
         length pre + length ws + length content + 2 +
         length (takeWhile (\<lambda>c. c \<in> set WS_COMMA) rest))"
proof -
  let ?body = "pre @ ws @ cp CHR 0x22 # content @ cp CHR 0x22 # rest"
  let ?i = "length pre + length ws"
  let ?j = "?i + 1 + length content"
  have a: "scan_while (\<lambda>c. c \<in> set WS) ?body (length pre) = Inr ?i"
    by (rule skip_leading_ws [OF assms(2)]) (simp add: WS_def)
  have g: "\<not> ?i \<ge> length ?body" by simp
  have b: "char_at ?body ?i = Inr (cp CHR 0x22)"
    using char_at_append [of "pre @ ws"] by simp
  have c: "quote_scan ?body (?i + 1) = Inr ?j"
    using quote_scan_closed [OF assms(1), of "pre @ ws @ [cp CHR 0x22]" rest]
    by simp
  have f: "scan_while (\<lambda>c. c \<in> set WS_COMMA) ?body (?j + 1) =
           Inr (?j + 1 + length (takeWhile (\<lambda>c. c \<in> set WS_COMMA) rest))"
    using skip_trailing [of "?j + 1" "pre @ ws @ cp CHR 0x22 # content @ [cp CHR 0x22]" _ rest]
    by simp
  have e: "slice ?body (?i + 1) ?j = content"
    using slice_mid [of "?i + 1" "pre @ ws @ [cp CHR 0x22]" ?j content "cp CHR 0x22 # rest"]
    by simp
  have ne: "cp CHR 0x22 \<noteq> cp CHR ''{''" by simp
  show ?thesis
    unfolding extract_value_def andthen_def
    apply (simp only: a sum.case g if_False b)
    apply (simp only: ne simp_thms if_True if_False c sum.case f e)
    apply simp
    done
qed

section \<open>Running the program on a given text\<close>

text \<open>The equations of the loops in the form the simplifier runs on a concrete string.\<close>

lemma entry_search_hit:
  "entry_match_at src pos = Some m \<Longrightarrow> pos \<le> length src \<Longrightarrow> entry_search src pos = Some m"
  by (subst entry_search.simps) simp

lemma entry_search_miss:
  "entry_match_at src pos = None \<Longrightarrow> pos \<le> length src \<Longrightarrow>
   entry_search src pos = entry_search src (pos + 1)"
  by (subst entry_search.simps) simp

lemma field_search_hit:
  "field_match_at body pos = Some m \<Longrightarrow> pos \<le> length body \<Longrightarrow> field_search body pos = Some m"
  by (subst field_search.simps) simp

lemma field_search_miss:
  "field_match_at body pos = None \<Longrightarrow> pos \<le> length body \<Longrightarrow>
   field_search body pos = field_search body (pos + 1)"
  by (subst field_search.simps) simp

lemma parse_fields_step:
  "field_search body fpos = Some (w, vstart) \<Longrightarrow> extract_value body vstart = Inr (val, vend) \<Longrightarrow>
   fpos < length body \<Longrightarrow>
   parse_fields body fpos fs = parse_fields body vend (fs(lower w \<mapsto> val))"
  by (subst parse_fields.simps) simp

lemma parse_fields_end: "length body \<le> fpos \<Longrightarrow> parse_fields body fpos fs = Inr fs"
  by (subst parse_fields.simps) simp

lemma parse_entries_step:
  "entry_search src pos = Some (w, start) \<Longrightarrow> brace_scan src start 1 = Inr i \<Longrightarrow>
   parse_fields (slice src start (i - 1)) 0 (Map.empty(py ''_type'' \<mapsto> lower w)) = Inr fs \<Longrightarrow>
   pos < length src \<Longrightarrow>
   parse_entries src pos entries = parse_entries src i (entries @ [fs])"
  by (subst parse_entries.simps) simp

lemma parse_entries_end: "length src \<le> pos \<Longrightarrow> parse_entries src pos entries = Inr entries"
  by (subst parse_entries.simps) simp

lemma replace_Nil: "replace [] old new = []"
  by (subst replace.simps) simp

lemma replace_Cons:
  "replace (c # cs) old new =
     (if old = [] then c # cs
      else if startswith (c # cs) old then new @ replace (drop (length old) (c # cs)) old new
      else c # replace cs old new)"
  by (subst replace.simps) simp

lemma strip_commands_Nil: "strip_commands [] = []"
  by (subst strip_commands.simps) simp

lemma strip_commands_Cons:
  "strip_commands (c # cs) =
     (if c = cp CHR 0x5C \<and> takeWhile is_ascii_letter cs \<noteq> []
      then strip_commands (dropWhile isspace (dropWhile is_ascii_letter cs))
      else c # strip_commands cs)"
  by (subst strip_commands.simps) simp

lemma split_and_Nil: "split_and acc [] = [acc]"
  by (subst split_and.simps) simp

lemma split_and_Cons:
  "split_and acc (c # cs) =
     (case and_match (c # cs) of
        Some r' \<Rightarrow> acc # split_and [] r'
      | None \<Rightarrow> split_and (acc @ [c]) cs)"
  by (subst split_and.simps) simp

lemma brace_scan_eq: "brace_scan body j depth = Inr (j + brace_len (drop j body) depth)"
proof (induction body j depth rule: brace_scan.induct)
  case (1 body j depth)
  show ?case
  proof (cases "j < length body \<and> depth > 0")
    case True
    then have d: "drop j body = body ! j # drop (Suc j) body"
      by (simp add: Cons_nth_drop_Suc)
    from True have c: "char_at body j = Inr (body ! j)" by (simp add: char_at_def)
    consider (op) "body ! j = cp CHR ''{''"
      | (cl) "body ! j \<noteq> cp CHR ''{''" "body ! j = cp CHR ''}''"
      | (ot) "body ! j \<noteq> cp CHR ''{''" "body ! j \<noteq> cp CHR ''}''"
      by blast
    then show ?thesis
    proof cases
      case op
      from "1.IH"(1) [OF True c op] True c op d show ?thesis
        by (subst brace_scan.simps) simp
    next
      case cl
      from "1.IH"(2) [OF True c cl] True c cl d show ?thesis
        by (subst brace_scan.simps) simp
    next
      case ot
      from "1.IH"(3) [OF True c ot] True c ot d show ?thesis
        by (subst brace_scan.simps) simp
    qed
  next
    case False
    then show ?thesis
      by (subst brace_scan.simps) (cases "drop j body", auto)
  qed
qed

lemmas scanner_rules = extract_value_def andthen_def scan_while_eq brace_scan_eq char_at_def
  slice_def WS_def WS_COMMA_def BARE_END_def entry_match_at_def field_match_at_def Let_def


lemmas char_classes = is_word_def isalnum_def isspace_def is_ascii_letter_def
  lower_def lower_cp_def isdigit_def isdigit_cp_def isdecimal_cp_def

lemmas string_rules = replace_Nil replace_Cons strip_commands_Nil strip_commands_Cons
  split_and_Nil split_and_Cons startswith_def endswith_def strip_def slice_def
  and_match_def split_comma_def re_split_and_def Let_def

lemmas normalizer_rules = bib_entry_to_publication_def clean_latex_def strip_braces.simps
  parse_author_list_def emphasise_owner_def OWNER_LAST_NAMES_def resolve_month_def
  MONTH_MAP_def int_of_def zfill_def truthy_def andthen_def

section \<open>Stripping and lower case\<close>

lemma dropWhile_pad:
  "\<forall>c\<in>set l. P c \<Longrightarrow> m \<noteq> [] \<Longrightarrow> \<not> P (hd m) \<Longrightarrow> dropWhile P (l @ m @ r) = m @ r"
  by (induction l) (auto simp: neq_Nil_conv)

lemma strip_pad:
  assumes "\<forall>c\<in>set l. isspace c" and "\<forall>c\<in>set r. isspace c"
    and "m \<noteq> []" and "\<not> isspace (hd m)" and "\<not> isspace (last m)"
  shows "strip (l @ m @ r) = m"
proof -
  have a: "dropWhile isspace (l @ m @ r) = m @ r"
    using assms by (intro dropWhile_pad) simp_all
  have "dropWhile isspace (rev r @ rev m @ []) = rev m @ []"
    using assms by (intro dropWhile_pad) (simp_all add: hd_rev)
  then show ?thesis
    by (simp add: strip_def a)
qed

lemma isspace_lower_cp: "isspace c \<Longrightarrow> lower_cp c = c"
  by (auto simp: isspace_def lower_cp_def)

lemma month_key_shape:
  assumes "lower m \<in> dom MONTH_MAP"
  shows "m \<noteq> [] \<and> \<not> isspace (hd m) \<and> \<not> isspace (last m)"
proof -
  from assms obtain a b c where m: "m = [a, b, c]"
    by (auto simp: MONTH_MAP_def lower_def dom_map_of_conv_image_fst map_eq_Cons_conv)
  have "\<not> isspace a"
  proof
    assume "isspace a"
    then have "lower_cp a = a" by (rule isspace_lower_cp)
    with assms m \<open>isspace a\<close> show False
      by (auto simp: MONTH_MAP_def lower_def dom_map_of_conv_image_fst isspace_def)
  qed
  moreover have "\<not> isspace c"
  proof
    assume "isspace c"
    then have "lower_cp c = c" by (rule isspace_lower_cp)
    with assms m \<open>isspace c\<close> show False
      by (auto simp: MONTH_MAP_def lower_def dom_map_of_conv_image_fst isspace_def)
  qed
  ultimately show ?thesis using m by simp
qed

section \<open>The loop over the author pieces\<close>

text \<open>The loop only appends to \<open>names\<close>, so that what a piece adds does not depend on the
  pieces around it.\<close>

lemma author_loop_appends: "author_loop ps names = names @ author_loop ps []"
proof (induction ps arbitrary: names)
  case Nil
  show ?case by simp
next
  case (Cons p ps)
  show ?case
    using Cons.IH [of names] Cons.IH [of "names @ [x]" for x] Cons.IH [of "[x]" for x]
    by (simp add: Let_def)
qed

lemma author_loop_append:
  "author_loop (ps @ qs) names = author_loop qs (author_loop ps names)"
  by (induction ps arbitrary: names) (simp_all add: Let_def)

lemma author_loop_split:
  "author_loop (before @ p # after) [] =
   author_loop before [] @ author_loop [p] [] @ author_loop after []"
proof -
  have "author_loop (before @ p # after) [] = author_loop after (author_loop [p] (author_loop before []))"
    using author_loop_append [of before "[p] @ after" "[]"]
      author_loop_append [of "[p]" after "author_loop before []"] by simp
  also have "\<dots> = author_loop [p] (author_loop before []) @ author_loop after []"
    by (rule author_loop_appends)
  also have "author_loop [p] (author_loop before []) = author_loop before [] @ author_loop [p] []"
    by (rule author_loop_appends)
  finally show ?thesis by simp
qed

lemma count_list_dropWhile: "\<not> P x \<Longrightarrow> count_list (dropWhile P xs) x = count_list xs x"
  by (induction xs) auto

lemma count_comma_strip: "count_list (strip s) (cp CHR '','') = count_list s (cp CHR '','')"
  by (simp add: strip_def count_list_dropWhile isspace_def)

lemma many_commas_dropped:
  "2 \<le> count_list p (cp CHR '','') \<Longrightarrow> author_loop [p] [] = []"
  using count_comma_strip [of p] by (simp add: Let_def)

text \<open>Trimming on the right, and trimming a piece around its comma.\<close>

lemma rstrip_Cons:
  "rev (dropWhile P (rev (x # xs))) =
     (if \<forall>c\<in>set xs. P c then (if P x then [] else [x]) else x # rev (dropWhile P (rev xs)))"
  by (simp add: dropWhile_append)

lemma strip_commute:
  "dropWhile P (rev (dropWhile P (rev xs))) = rev (dropWhile P (rev (dropWhile P xs)))"
proof (induction xs)
  case Nil
  show ?case by simp
next
  case (Cons x xs)
  show ?case
  proof (cases "P x")
    case True
    then show ?thesis using Cons by (auto simp: dropWhile_append dest: set_dropWhileD)
  next
    case False
    then show ?thesis by (simp add: dropWhile_append)
  qed
qed

lemma strip_rstrip: "strip (rev (dropWhile isspace (rev xs))) = strip xs"
  unfolding strip_def by (simp add: strip_commute [of isspace xs])

lemma strip_lstrip: "strip (dropWhile isspace xs) = strip xs"
  by (simp add: strip_def)

lemma dropWhile_before_comma:
  "dropWhile isspace (l @ cp CHR '','' # f) = dropWhile isspace l @ cp CHR '','' # f"
  by (rule dropWhile_append3) (simp add: isspace_def)

lemma strip_around_comma:
  "strip (l @ cp CHR '','' # f) =
   dropWhile isspace l @ cp CHR '','' # rev (dropWhile isspace (rev f))"
  apply (simp only: strip_def dropWhile_before_comma)
  apply (simp only: rev_append rev.simps append_assoc append_Cons append_Nil)
  apply (simp only: dropWhile_before_comma)
  apply simp
  done

lemma split_comma_at:
  assumes "cp CHR '','' \<notin> set l"
  shows "split_comma (l @ cp CHR '','' # f) = (l, f)"
proof -
  from assms have a: "\<forall>c\<in>set l. c \<noteq> cp CHR '',''" by auto
  then have "takeWhile (\<lambda>c. c \<noteq> cp CHR '','') (l @ cp CHR '','' # f) = l"
    and "dropWhile (\<lambda>c. c \<noteq> cp CHR '','') (l @ cp CHR '','' # f) = cp CHR '','' # f"
    by (simp_all add: takeWhile_tail)
  then show ?thesis
    unfolding split_comma_def by simp
qed

lemma one_comma_reordered:
  assumes "cp CHR '','' \<notin> set l" and "cp CHR '','' \<notin> set f"
  shows "author_loop [l @ cp CHR '','' # f] [] =
         (let name = clean_latex (strip f @ py '' '' @ strip l)
          in if name = [] then [] else [name])"
proof -
  let ?l = "dropWhile isspace l" and ?f = "rev (dropWhile isspace (rev f))"
  let ?part = "?l @ cp CHR '','' # ?f"
  have part: "strip (l @ cp CHR '','' # f) = ?part"
    by (rule strip_around_comma)
  have l: "cp CHR '','' \<notin> set ?l" and f: "cp CHR '','' \<notin> set ?f"
    using assms by (auto dest: set_dropWhileD)
  have ne: "?part \<noteq> []" by simp
  have cnt: "\<not> 2 \<le> count_list ?part (cp CHR '','')"
    using l f by simp
  have mem: "cp CHR '','' \<in> set ?part" by simp
  have sp: "split_comma ?part = (?l, ?f)"
    by (rule split_comma_at [OF l])
  have sl: "strip ?l = strip l" by (rule strip_lstrip)
  have sf: "strip ?f = strip f" by (rule strip_rstrip)
  show ?thesis
    unfolding author_loop.simps part Let_def
    apply (simp only: ne cnt mem sp sl sf if_True if_False prod.case append_Nil)
    apply simp
    done
qed


section \<open>The order of the publications\<close>

lemma sort_by_date_reverse_sorted:
  "sorted_wrt (\<lambda>p q. date q \<le> date p) (sort_by_date_reverse ps)"
proof -
  have "sorted (map date (sort_key date (rev ps)))" by (rule sorted_sort_key)
  then show ?thesis
    unfolding sort_by_date_reverse_def sorted_wrt_rev sorted_map .
qed

lemma sort_by_date_reverse_mset: "mset (sort_by_date_reverse ps) = mset ps"
  by (simp add: sort_by_date_reverse_def)

lemma collect_publications_sorted:
  assumes "collect_publications bib_text = Inr pubs"
  shows "sorted_wrt (\<lambda>p q. date q \<le> date p) pubs"
proof -
  from assms obtain ps where "pubs = sort_by_date_reverse ps"
    by (auto simp: collect_publications_def andthen_def split: sum.splits)
  then show ?thesis by (simp add: sort_by_date_reverse_sorted)
qed

lemma three_dates_order:
  assumes "mset (map date ps) = {#py ''2021'', py ''2020-06'', py ''2022-01''#}"
  shows "map date (sort_by_date_reverse ps) = [py ''2022-01'', py ''2021'', py ''2020-06'']"
proof -
  let ?ds = "map date (sort_by_date_reverse ps)"
  have srt: "sorted (rev ?ds)"
    using sort_by_date_reverse_sorted [of ps]
    by (simp add: sorted_wrt_rev sorted_wrt_map)
  have ms: "mset (rev ?ds) = mset [py ''2021'', py ''2020-06'', py ''2022-01'']"
    using assms by (simp add: sort_by_date_reverse_mset)
  from ms srt have "sort [py ''2021'', py ''2020-06'', py ''2022-01''] = rev ?ds"
    by (rule properties_for_sort)
  moreover have "sort [py ''2021'', py ''2020-06'', py ''2022-01''] =
      [py ''2020-06'', py ''2021'', py ''2022-01'']"
    by simp
  ultimately have "rev ?ds = [py ''2020-06'', py ''2021'', py ''2022-01'']" by simp
  then have "rev (rev ?ds) = rev [py ''2020-06'', py ''2021'', py ''2022-01'']" by (rule arg_cong)
  then show ?thesis by simp
qed

text \<open>A bibliography of three entries, run from the text to the sorted records.\<close>

lemma three_entries_collected:
  "collect_publications
     (py ''@misc{a, title={A}, year={2021}} @misc{b, title={B}, year={2020}, month={jun}} @misc{c, title={C}, year={2022}, month={1}}'') =
   Inr [\<lparr>title = py ''C'', authors = [], journal = None, date = py ''2022-01'', doi = None\<rparr>,
        \<lparr>title = py ''A'', authors = [], journal = None, date = py ''2021'', doi = None\<rparr>,
        \<lparr>title = py ''B'', authors = [], journal = None, date = py ''2020-06'', doi = None\<rparr>]"
  by (simp add: collect_publications_def sort_by_date_reverse_def parse_bib_def
      parse_entries.simps parse_fields.simps field_search.simps entry_search.simps
      scanner_rules char_classes normalizer_rules string_rules)


section \<open>The run of the program\<close>





section \<open>The claims\<close>

text \<open>
  C1. The entry \<^verbatim>\<open>@article{smith2020, title={Foo}, author={Smith, Jane and Doe, John},
  journal={Bar}, year={2020}, month={mar}}\<close>, scanned and then normalised, gives one
  publication: title \<open>Foo\<close>, authors \<open>Jane Smith\<close> and \<open>John Doe\<close> in this order (neither
  holds a surname of the owner, so neither is wrapped in asterisks), journal \<open>Bar\<close>, date
  \<open>2020-03\<close>, and no DOI.
\<close>

theorem roundtrip_example:
  "andthen
     (parse_bib (py ''@article{smith2020, title={Foo}, author={Smith, Jane and Doe, John}, journal={Bar}, year={2020}, month={mar}}''))
     (\<lambda>entries. Inr (map bib_entry_to_publication entries)) =
   Inr [Inr (Some \<lparr>title = py ''Foo'', authors = [py ''Jane Smith'', py ''John Doe''],
                    journal = Some (py ''Bar''), date = py ''2020-03'', doi = None\<rparr>)]"
proof -
  let ?t = "py ''@article{smith2020, title={Foo}, author={Smith, Jane and Doe, John}, journal={Bar}, year={2020}, month={mar}}''"
  let ?b = "py '' title={Foo}, author={Smith, Jane and Doe, John}, journal={Bar}, year={2020}, month={mar}''"
  let ?init = "Map.empty(py ''_type'' \<mapsto> lower (py ''article''))"
  let ?m1 = "?init(lower (py ''title'') \<mapsto> py ''Foo'')"
  let ?m2 = "?m1(lower (py ''author'') \<mapsto> py ''Smith, Jane and Doe, John'')"
  let ?m3 = "?m2(lower (py ''journal'') \<mapsto> py ''Bar'')"
  let ?m4 = "?m3(lower (py ''year'') \<mapsto> py ''2020'')"
  let ?m = "?m4(lower (py ''month'') \<mapsto> py ''mar'')"
  have e1: "entry_search ?t 0 = Some (py ''article'', 19)"
    by (rule entry_search_hit) (simp_all add: scanner_rules char_classes)
  have e2: "brace_scan ?t 19 1 = Inr 109"
    by (simp add: scanner_rules)
  have e3: "slice ?t 19 (109 - 1) = ?b"
    by (simp add: slice_def)
  have f0: "field_match_at ?b 0 = None"
    by (simp add: scanner_rules char_classes)
  have f1': "field_search ?b (0 + 1) = Some (py ''title'', 7)"
    by (rule field_search_hit) (simp_all add: scanner_rules char_classes)
  have f1: "field_search ?b 0 = Some (py ''title'', 7)"
    using field_search_miss [OF f0] f1' by simp
  have v1: "extract_value ?b 7 = Inr (py ''Foo'', 14)"
    by (simp add: scanner_rules)
  have f2: "field_search ?b 14 = Some (py ''author'', 21)"
    by (rule field_search_hit) (simp_all add: scanner_rules char_classes)
  have v2: "extract_value ?b 21 = Inr (py ''Smith, Jane and Doe, John'', 50)"
    by (simp add: scanner_rules)
  have f3: "field_search ?b 50 = Some (py ''journal'', 58)"
    by (rule field_search_hit) (simp_all add: scanner_rules char_classes)
  have v3: "extract_value ?b 58 = Inr (py ''Bar'', 65)"
    by (simp add: scanner_rules)
  have f4: "field_search ?b 65 = Some (py ''year'', 70)"
    by (rule field_search_hit) (simp_all add: scanner_rules char_classes)
  have v4: "extract_value ?b 70 = Inr (py ''2020'', 78)"
    by (simp add: scanner_rules)
  have f5: "field_search ?b 78 = Some (py ''month'', 84)"
    by (rule field_search_hit) (simp_all add: scanner_rules char_classes)
  have v5: "extract_value ?b 84 = Inr (py ''mar'', 89)"
    by (simp add: scanner_rules)
  have "parse_fields ?b 0 ?init = parse_fields ?b 14 ?m1"
    by (rule parse_fields_step [OF f1 v1]) simp
  also have "\<dots> = parse_fields ?b 50 ?m2"
    by (rule parse_fields_step [OF f2 v2]) simp
  also have "\<dots> = parse_fields ?b 65 ?m3"
    by (rule parse_fields_step [OF f3 v3]) simp
  also have "\<dots> = parse_fields ?b 78 ?m4"
    by (rule parse_fields_step [OF f4 v4]) simp
  also have "\<dots> = parse_fields ?b 89 ?m"
    by (rule parse_fields_step [OF f5 v5]) simp
  also have "\<dots> = Inr ?m"
    by (rule parse_fields_end) simp
  finally have pf: "parse_fields (slice ?t 19 (109 - 1)) 0 ?init = Inr ?m"
    unfolding e3 .
  have "parse_bib ?t = parse_entries ?t 109 ([] @ [?m])"
    unfolding parse_bib_def by (rule parse_entries_step [OF e1 e2 pf]) simp
  also have "\<dots> = Inr [?m]"
    by (simp add: parse_entries_end)
  finally have pb: "parse_bib ?t = Inr [?m]" .
  have n: "bib_entry_to_publication ?m =
      Inr (Some \<lparr>title = py ''Foo'', authors = [py ''Jane Smith'', py ''John Doe''],
                 journal = Some (py ''Bar''), date = py ''2020-03'', doi = None\<rparr>)"
    by (simp add: normalizer_rules string_rules char_classes)
  show ?thesis
    unfolding pb using n by (simp add: andthen_def)
qed

text \<open>
  C2. The normaliser gives no record when the \<open>title\<close> or the \<open>year\<close> of the entry is
  missing or empty. It does not give a record for every entry that has both: for the
  entry with title \<open>T\<close>, year \<open>2020\<close> and the month \<open>U+00B2\<close> (superscript two), for which
  \<open>str.isdigit\<close> holds and \<open>int\<close> raises, the call ends in a \<open>ValueError\<close>, with neither a
  record nor \<open>None\<close>.
\<close>

theorem superscript_month_raises:
  "bib_entry_to_publication
     (Map.empty(py ''title'' \<mapsto> py ''T'', py ''year'' \<mapsto> py ''2020'',
                py ''month'' \<mapsto> [0xB2])) = Inl ValueError"
  by (simp add: normalizer_rules string_rules char_classes)

text \<open>
  C3. A value that starts, after the blanks the extractor skips, with an opening brace and
  whose text up to the matching closing brace has balanced braces is extracted as exactly
  that text: the two outer braces are gone and every inner brace is kept. The index
  returned is the one after the closing brace and the blanks and commas that follow it.
\<close>

theorem extract_value_braces:
  assumes "balanced content" and "set ws \<subseteq> set WS"
  shows "extract_value (pre @ ws @ cp CHR ''{'' # content @ cp CHR ''}'' # rest) (length pre) =
    Inr (content,
         length pre + length ws + length content + 2 +
         length (takeWhile (\<lambda>c. c \<in> set WS_COMMA) rest))"
  using assms by (rule extract_braced)

theorem extract_value_braces_witness:
  "balanced (py ''a{b{c}}d'') \<and> set (py ''  '') \<subseteq> set WS \<and>
   extract_value (py ''t =  {a{b{c}}d}, y'') 3 = Inr (py ''a{b{c}}d'', 17)"
  using extract_value_braces [of "py ''a{b{c}}d''" "py ''  ''" "py ''t =''" "py '', y''"]
  by (simp add: balanced_def WS_def WS_COMMA_def One_nat_def [symmetric] del: One_nat_def)

text \<open>
  C4. In a quoted value a backslash takes the character after it with it, a quote or
  another backslash included: the value does not end at a quote that a backslash escapes,
  it ends at the first quote read on its own, and the text between the two quotes is
  returned unchanged.
\<close>

theorem extract_value_quoted:
  assumes "escapes_closed content" and "set ws \<subseteq> set WS"
  shows "extract_value (pre @ ws @ cp CHR 0x22 # content @ cp CHR 0x22 # rest) (length pre) =
    Inr (content,
         length pre + length ws + length content + 2 +
         length (takeWhile (\<lambda>c. c \<in> set WS_COMMA) rest))"
  using assms by (rule extract_quoted)

theorem extract_value_quoted_witness:
  "escapes_closed (py ''a'' @ [cp CHR 0x5C, cp CHR 0x22] @ py ''b'' @ [cp CHR 0x5C, cp CHR 0x5C]) \<and>
   set (py '' '') \<subseteq> set WS \<and>
   extract_value
     (py ''t = '' @ [cp CHR 0x22] @ py ''a'' @ [cp CHR 0x5C, cp CHR 0x22] @ py ''b'' @
      [cp CHR 0x5C, cp CHR 0x5C] @ [cp CHR 0x22] @ py '', y'') 3 =
   Inr (py ''a'' @ [cp CHR 0x5C, cp CHR 0x22] @ py ''b'' @ [cp CHR 0x5C, cp CHR 0x5C], 14)"
  using extract_value_quoted
    [of "py ''a'' @ [cp CHR 0x5C, cp CHR 0x22] @ py ''b'' @ [cp CHR 0x5C, cp CHR 0x5C]"
        "py '' ''" "py ''t =''" "py '', y''"]
  by (simp add: WS_def WS_COMMA_def One_nat_def [symmetric] del: One_nat_def)

text \<open>
  C5. A month made of digits whose number is between 1 and 12 is not always brought to
  two digits: \<open>zfill(2)\<close> only pads, so the month \<open>003\<close> stays \<open>003\<close>, and the date of the
  entry with year \<open>2020\<close> is \<open>2020-003\<close>.
\<close>

theorem long_month_not_two_digits:
  "resolve_month (Some (py ''003'')) = Inr (Some (py ''003'')) \<and>
   map_sum id (map_option date)
     (bib_entry_to_publication
        (Map.empty(py ''title'' \<mapsto> py ''T'', py ''year'' \<mapsto> py ''2020'',
                   py ''month'' \<mapsto> py ''003''))) = Inr (Some (py ''2020-003''))"
  by (simp add: normalizer_rules string_rules char_classes)

text \<open>
  C6. Let \<open>p\<close> be one of the pieces that \<open>re.split\<close> makes of an author field, the pieces
  \<open>before\<close> ahead of it and the pieces \<open>after\<close> behind it. If \<open>p\<close> holds two commas or more, it
  adds no name: the list of names is the one of the other pieces alone. If \<open>p\<close> holds one
  comma, \<open>l\<close> before it and \<open>f\<close> after it, the name it adds is \<open>f\<close> and \<open>l\<close>, each trimmed,
  in this order with one space between them, passed through \<open>_clean_latex\<close> (and left out
  if nothing remains of it). The authors of the record are these names, each passed
  through \<open>_emphasise_owner\<close>.
\<close>

theorem author_piece_commas:
  assumes "re_split_and raw = before @ p # after"
  shows "(2 \<le> count_list p (cp CHR '','') \<longrightarrow>
            parse_author_list raw = author_loop before [] @ author_loop after []) \<and>
         (p = l @ cp CHR '','' # f \<and> cp CHR '','' \<notin> set l \<and> cp CHR '','' \<notin> set f \<longrightarrow>
            parse_author_list raw =
              author_loop before [] @
              (let name = clean_latex (strip f @ py '' '' @ strip l)
               in if name = [] then [] else [name]) @
              author_loop after [])"
  unfolding parse_author_list_def assms author_loop_split
  using many_commas_dropped [of p] one_comma_reordered [of l f] by auto

theorem author_piece_commas_witness:
  "re_split_and (py ''Doe, John and Some University, City, Country'') =
     [py ''Doe, John'', py ''Some University, City, Country''] \<and>
   2 \<le> count_list (py ''Some University, City, Country'') (cp CHR '','') \<and>
   cp CHR '','' \<notin> set (py ''Doe'') \<and> cp CHR '','' \<notin> set (py '' John'') \<and>
   parse_author_list (py ''Doe, John and Some University, City, Country'') = [py ''John Doe'']"
  using
    author_piece_commas [of "py ''Doe, John and Some University, City, Country''"
      "[]" "py ''Doe, John''" "[py ''Some University, City, Country'']" "py ''Doe''" "py '' John''"]
    author_piece_commas [of "py ''Doe, John and Some University, City, Country''"
      "[py ''Doe, John'']" "py ''Some University, City, Country''" "[]"]
  by (simp add: string_rules char_classes clean_latex_def)

text \<open>
  C7. The publications come out sorted by their \<open>date\<close>, greatest first, in the order of
  strings (code point by code point, a prefix before a longer string): every record of
  the sorted list has a date at least as great as the dates of the records after it, the
  sort keeps the records and adds none, and the list that \<open>main\<close> goes on with is such a
  sorted list. Records with the dates \<open>2021\<close>, \<open>2020-06\<close> and \<open>2022-01\<close>, in whatever order
  they come, leave in the order \<open>2022-01\<close>, \<open>2021\<close>, \<open>2020-06\<close>.
\<close>

theorem publications_sorted_descending:
  "sorted_wrt (\<lambda>p q. date q \<le> date p) (sort_by_date_reverse ps) \<and>
   mset (sort_by_date_reverse ps) = mset ps \<and>
   (collect_publications bib_text = Inr pubs \<longrightarrow>
      sorted_wrt (\<lambda>p q. date q \<le> date p) pubs) \<and>
   (mset (map date ps) = {#py ''2021'', py ''2020-06'', py ''2022-01''#} \<longrightarrow>
      map date (sort_by_date_reverse ps) = [py ''2022-01'', py ''2021'', py ''2020-06''])"
proof (intro conjI impI)
  show "sorted_wrt (\<lambda>p q. date q \<le> date p) (sort_by_date_reverse ps)"
    by (rule sort_by_date_reverse_sorted)
  show "mset (sort_by_date_reverse ps) = mset ps"
    by (rule sort_by_date_reverse_mset)
  show "sorted_wrt (\<lambda>p q. date q \<le> date p) pubs"
    if "collect_publications bib_text = Inr pubs"
    using that by (rule collect_publications_sorted)
  show "map date (sort_by_date_reverse ps) = [py ''2022-01'', py ''2021'', py ''2020-06'']"
    if "mset (map date ps) = {#py ''2021'', py ''2020-06'', py ''2022-01''#}"
    using that by (rule three_dates_order)
qed

theorem publications_sorted_descending_witness:
  "collect_publications
     (py ''@misc{a, title={A}, year={2021}} @misc{b, title={B}, year={2020}, month={jun}} @misc{c, title={C}, year={2022}, month={1}}'') =
   Inr [\<lparr>title = py ''C'', authors = [], journal = None, date = py ''2022-01'', doi = None\<rparr>,
        \<lparr>title = py ''A'', authors = [], journal = None, date = py ''2021'', doi = None\<rparr>,
        \<lparr>title = py ''B'', authors = [], journal = None, date = py ''2020-06'', doi = None\<rparr>] \<and>
   sorted_wrt (\<lambda>p q. date q \<le> date p)
     [\<lparr>title = py ''C'', authors = [], journal = None, date = py ''2022-01'', doi = None\<rparr>,
      \<lparr>title = py ''A'', authors = [], journal = None, date = py ''2021'', doi = None\<rparr>,
      \<lparr>title = py ''B'', authors = [], journal = None, date = py ''2020-06'', doi = None\<rparr>] \<and>
   mset (map date
     [\<lparr>title = py ''A'', authors = [], journal = None, date = py ''2021'', doi = None\<rparr>,
      \<lparr>title = py ''B'', authors = [], journal = None, date = py ''2020-06'', doi = None\<rparr>,
      \<lparr>title = py ''C'', authors = [], journal = None, date = py ''2022-01'', doi = None\<rparr>]) =
     {#py ''2021'', py ''2020-06'', py ''2022-01''#} \<and>
   map date (sort_by_date_reverse
     [\<lparr>title = py ''A'', authors = [], journal = None, date = py ''2021'', doi = None\<rparr>,
      \<lparr>title = py ''B'', authors = [], journal = None, date = py ''2020-06'', doi = None\<rparr>,
      \<lparr>title = py ''C'', authors = [], journal = None, date = py ''2022-01'', doi = None\<rparr>]) =
     [py ''2022-01'', py ''2021'', py ''2020-06'']"
  using publications_sorted_descending
    [of "[\<lparr>title = py ''A'', authors = [], journal = None, date = py ''2021'', doi = None\<rparr>,
          \<lparr>title = py ''B'', authors = [], journal = None, date = py ''2020-06'', doi = None\<rparr>,
          \<lparr>title = py ''C'', authors = [], journal = None, date = py ''2022-01'', doi = None\<rparr>]"
        "py ''@misc{a, title={A}, year={2021}} @misc{b, title={B}, year={2020}, month={jun}} @misc{c, title={C}, year={2022}, month={1}}''"
        "[\<lparr>title = py ''C'', authors = [], journal = None, date = py ''2022-01'', doi = None\<rparr>,
          \<lparr>title = py ''A'', authors = [], journal = None, date = py ''2021'', doi = None\<rparr>,
          \<lparr>title = py ''B'', authors = [], journal = None, date = py ''2020-06'', doi = None\<rparr>]"]
    three_entries_collected
  by simp



text \<open>
  C9. On every text the scanner returns a list of entries and the extractor returns a
  value and an index: the loops end (each one moves forward in a finite text) and no read
  of a character is out of range, so that no \<open>IndexError\<close>, nor any other exception, is
  raised, whatever the braces and separators of the text. What is returned for a
  malformed text is not always a shortened or a skipped entry, as the text after this
  theorem shows.
\<close>

theorem scanner_never_raises:
  "(\<exists>entries. parse_bib src = Inr entries) \<and>
   (\<exists>v vend. extract_value body start = Inr (v, vend))"
  using parse_entries_total [of src 0 "[]"] extract_value_total [of body start]
  by (auto simp: parse_bib_def)

text \<open>
  C9, the malformed text that is neither cut short nor skipped. An entry whose closing
  brace is missing never brings the brace counter back to zero, so its body runs to the
  end of the text and the fields of the entry after it are read as fields of its own,
  the later \<open>title\<close> and \<open>year\<close> taking the place of the earlier ones. The two entries
  come back as one, of type \<open>article\<close>, with the author of the first entry and the
  complete title and year of the second; the second entry, which alone is read as a
  \<open>book\<close>, is not in the list.
\<close>

theorem unclosed_entry_takes_next:
  "parse_bib (py ''@book{b, title={Second}, year={2021}}'') =
     Inr [Map.empty(py ''_type'' \<mapsto> py ''book'', py ''title'' \<mapsto> py ''Second'',
                    py ''year'' \<mapsto> py ''2021'')] \<and>
   parse_bib (py ''@article{a, author={Alice A}, title={First}, year={2020} @book{b, title={Second}, year={2021}}'') =
     Inr [Map.empty(py ''_type'' \<mapsto> py ''article'', py ''author'' \<mapsto> py ''Alice A'',
                    py ''title'' \<mapsto> py ''Second'', py ''year'' \<mapsto> py ''2021'')]"
  by (simp add: parse_bib_def parse_entries.simps parse_fields.simps field_search.simps
      entry_search.simps scanner_rules char_classes)

text \<open>
  C10. The month is looked up after \<open>strip()\<close> and \<open>lower()\<close>: a month whose lower case
  is a key of the table, written in any case and with any whitespace around it (\<open>MAR\<close>,
  \<open> Jan \<close>), resolves to the two digits of the table, the same as the lower-case
  abbreviation alone.
\<close>

theorem resolve_month_any_case:
  assumes "\<forall>c\<in>set l. isspace c" and "\<forall>c\<in>set r. isspace c"
    and "MONTH_MAP (lower m) = Some mm"
  shows "resolve_month (Some (l @ m @ r)) = Inr (Some mm) \<and>
         resolve_month (Some (lower m)) = Inr (Some mm)"
proof -
  from assms(3) have k: "lower m \<in> dom MONTH_MAP" by auto
  from month_key_shape [OF k] assms(1,2) have s: "strip (l @ m @ r) = m"
    by (intro strip_pad) simp_all
  have l2: "lower (lower m) = lower m"
    using k by (auto simp: MONTH_MAP_def dom_map_of_conv_image_fst lower_def lower_cp_def)
  have "lower (lower m) \<in> dom MONTH_MAP" using k l2 by simp
  from month_key_shape [OF this] have s2: "strip ([] @ lower m @ []) = lower m"
    by (intro strip_pad) simp_all
  show ?thesis
    using assms(3) s s2 l2 by (simp add: resolve_month_def)
qed

theorem resolve_month_any_case_witness:
  "list_all isspace (py '' '') \<and> MONTH_MAP (lower (py ''Jan'')) = Some (py ''01'') \<and>
   resolve_month (Some (py '' Jan '')) = Inr (Some (py ''01'')) \<and>
   resolve_month (Some (py ''jan'')) = Inr (Some (py ''01''))"
  using resolve_month_any_case [of "py '' ''" "py '' ''" "py ''Jan''" "py ''01''"]
  by (simp add: isspace_def MONTH_MAP_def lower_def lower_cp_def)

end
